theory Spec2Isabelle
  imports Complex_Main
begin

section \<open>QuotaLimiter (src/google/QuotaLimiter.js)\<close>

text \<open>
  The limiter is a JavaScript object with the fields \<open>jobs\<close>, \<open>running\<close>,
  \<open>initialLimit\<close> and \<open>currentLimit\<close>. Every method is modelled as a function on
  a record of these fields. The clock \<open>+new Date() / 1000\<close> is an argument \<open>now\<close> of
  each method that reads it: a number of seconds, taken as an exact real.
  \<open>queries\<close> and \<open>seconds\<close> are integers, standing for the doubles that hold them;
  halving is exact on doubles (\<open>Math.floor (x / 2)\<close> is \<open>x div 2\<close>), and the one
  operation on them that is not, \<open>queries + 1\<close> in \<open>speedup\<close>, is \<open>plusOne\<close> below.
  A field that the source leaves \<open>undefined\<close> is \<open>None\<close>; reading a property of
  \<open>undefined\<close> is the error \<open>TypeError\<close>. The save handler only reads the queue and
  console output changes nothing; both are left out.
\<close>

definition CONCURRENCY :: int where
  "CONCURRENCY = 16"

definition DELAY_AFTER_ERROR :: real where
  "DELAY_AFTER_ERROR = 5"

datatype error = TypeError

text \<open>A queue entry \<open>{ done, func, ts }\<close>; \<open>ts\<close> is unset until the job is started.\<close>

record 'f job =
  job_done :: bool
  job_func :: "'f option"
  job_ts :: "real option"

text \<open>\<open>currentLimit = { queries, seconds, ts }\<close>.\<close>

record limit =
  queries :: int
  seconds :: int
  ts :: real

record 'f limiter =
  jobs :: "'f job list"
  running :: int
  initialLimit :: "(int \<times> int) option"
  currentLimit :: "limit option"

text \<open>\<open>constructor(initialJobs = [])\<close>, without its two timers.\<close>

definition constructor :: "'f job list \<Rightarrow> 'f limiter" where
  "constructor initialJobs =
     \<lparr>jobs = initialJobs, running = 0, initialLimit = None, currentLimit = None\<rparr>"

text \<open>
  JavaScript truthiness of \<open>job.ts\<close>: \<open>undefined\<close> and the number \<open>0\<close> are falsy.
\<close>

definition truthy_ts :: "real option \<Rightarrow> bool" where
  "truthy_ts t = (case t of None \<Rightarrow> False | Some x \<Rightarrow> x \<noteq> 0)"

text \<open>\<open>setLimit(queries, seconds)\<close>: the returned boolean and the new state.\<close>

definition setLimit :: "int \<Rightarrow> int \<Rightarrow> real \<Rightarrow> 'f limiter \<Rightarrow> bool \<times> 'f limiter" where
  "setLimit q s now st =
     (if s \<le> 0 then (False, st)
      else if q \<le> 0 then (False, st)
      else (case currentLimit st of
              Some l \<Rightarrow>
                if now - ts l < DELAY_AFTER_ERROR then (False, st)
                else (True, st\<lparr>currentLimit := Some \<lparr>queries = q, seconds = s, ts = now\<rparr>\<rparr>)
            | None \<Rightarrow>
                (True, st\<lparr>currentLimit := Some \<lparr>queries = q, seconds = s, ts = 0\<rparr>\<rparr>)))"

definition setInitialLimit :: "int \<Rightarrow> int \<Rightarrow> real \<Rightarrow> 'f limiter \<Rightarrow> 'f limiter" where
  "setInitialLimit q s now st =
     snd (setLimit q s now (st\<lparr>initialLimit := Some (q, s)\<rparr>))"

definition slowdown :: "real \<Rightarrow> 'f limiter \<Rightarrow> error + 'f limiter" where
  "slowdown now st =
     (case currentLimit st of
        None \<Rightarrow> Inl TypeError
      | Some l \<Rightarrow>
          let newLimits =
                (if seconds l > 1 then (queries l div 2, seconds l div 2)
                 else (queries l div 2, 1))
          in Inr (snd (setLimit (fst newLimits) (snd newLimits) now st)))"

text \<open>
  \<open>x + 1\<close> on an integer held in an IEEE 754 double, rounding to nearest, ties to even.
  Below \<open>2 ^ 53\<close> in magnitude every integer is a double and the sum is exact. From
  \<open>2 ^ 53\<close> to \<open>2 ^ 54\<close> the doubles are the even integers, \<open>x + 1\<close> lies half-way
  between \<open>x\<close> and \<open>x + 2\<close>, and the one with the even significand wins: \<open>x\<close> when 4
  divides it. Beyond, the doubles are at least 4 apart and the sum rounds back to \<open>x\<close>.
\<close>

definition plusOne :: "int \<Rightarrow> int" where
  "plusOne x =
     (if - (2 ^ 53) \<le> x \<and> x < 2 ^ 53 then x + 1
      else if - (2 ^ 54) \<le> x \<and> x < 2 ^ 54 then (if x mod 4 = 0 then x else x + 2)
      else x)"

definition speedup :: "real \<Rightarrow> 'f limiter \<Rightarrow> error + 'f limiter" where
  "speedup now st =
     (case currentLimit st of
        None \<Rightarrow> Inl TypeError
      | Some l \<Rightarrow> Inr (snd (setLimit (plusOne (queries l)) (seconds l) now st)))"

definition addJob :: "'f option \<Rightarrow> 'f limiter \<Rightarrow> 'f limiter" where
  "addJob f st = st\<lparr>jobs := jobs st @ [\<lparr>job_done = False, job_func = f, job_ts = None\<rparr>]\<rparr>"

text \<open>\<open>removeOlderThan(minTime)\<close>: keeps \<open>!job.ts || job.ts >= minTime\<close>.\<close>

definition keeps :: "real \<Rightarrow> 'f job \<Rightarrow> bool" where
  "keeps minTime j =
     (\<not> truthy_ts (job_ts j) \<or> (case job_ts j of Some t \<Rightarrow> t \<ge> minTime | None \<Rightarrow> False))"

definition removeOlderThan :: "real \<Rightarrow> 'f limiter \<Rightarrow> 'f limiter" where
  "removeOlderThan minTime st = st\<lparr>jobs := filter (keeps minTime) (jobs st)\<rparr>"

text \<open>
  \<open>calculateAvailableQuota(now)\<close>: \<open>quotaUsed\<close> counts
  \<open>!!job.ts && (now - job.ts) < limit.seconds\<close>.
\<close>

definition inWindow :: "real \<Rightarrow> limit \<Rightarrow> 'f job \<Rightarrow> bool" where
  "inWindow now l j =
     (truthy_ts (job_ts j) \<and>
      (case job_ts j of Some t \<Rightarrow> now - t < real_of_int (seconds l) | None \<Rightarrow> False))"

definition quotaUsed :: "real \<Rightarrow> limit \<Rightarrow> 'f job list \<Rightarrow> int" where
  "quotaUsed now l js = int (length (filter (inWindow now l) js))"

definition calculateAvailableQuota :: "real \<Rightarrow> 'f limiter \<Rightarrow> error + int" where
  "calculateAvailableQuota now st =
     (case currentLimit st of
        None \<Rightarrow> Inl TypeError
      | Some l \<Rightarrow>
          let used = quotaUsed now l (jobs st)
          in Inr (if CONCURRENCY > queries l - used then queries l - used else CONCURRENCY))"

text \<open>
  \<open>this.jobs.find(job => !job.ts && job.func)\<close> followed by \<open>notStartedJob.ts = now\<close>:
  the first such entry gets its start time, in place; \<open>None\<close> when \<open>find\<close> returns
  \<open>undefined\<close>.
\<close>

definition notStarted :: "'f job \<Rightarrow> bool" where
  "notStarted j = (\<not> truthy_ts (job_ts j) \<and> job_func j \<noteq> None)"

fun startFirst :: "real \<Rightarrow> 'f job list \<Rightarrow> 'f job list option" where
  "startFirst now [] = None"
| "startFirst now (j # js) =
     (if notStarted j then Some (j\<lparr>job_ts := Some now\<rparr> # js)
      else map_option ((#) j) (startFirst now js))"

text \<open>
  The \<open>while (availableQuota > 0)\<close> loop of \<open>handleQueue\<close>. The callback handed to
  \<open>process.nextTick\<close> runs after the tick; what it does to the limiter when the job's
  promise settles is \<open>jobResolved\<close> and \<open>jobRejected\<close> below.
\<close>

function admit :: "real \<Rightarrow> int \<Rightarrow> 'f limiter \<Rightarrow> 'f limiter" where
  "admit now availableQuota st =
     (if availableQuota > 0 then
        (case startFirst now (jobs st) of
           None \<Rightarrow> st
         | Some js \<Rightarrow> admit now (availableQuota - 1) (st\<lparr>jobs := js, running := running st + 1\<rparr>))
      else st)"
  by pat_completeness auto
termination
  by (relation "measure (\<lambda>(now, availableQuota, st). nat availableQuota)") auto

declare admit.simps [simp del]

definition handleQueue :: "real \<Rightarrow> 'f limiter \<Rightarrow> error + 'f limiter" where
  "handleQueue now st =
     (if running st > CONCURRENCY then Inr st
      else (case currentLimit st of
              None \<Rightarrow> Inl TypeError
            | Some l \<Rightarrow>
                if now - ts l < DELAY_AFTER_ERROR then Inr st
                else
                  let st1 = removeOlderThan (now - real_of_int (seconds l)) st
                  in (case calculateAvailableQuota now st1 of
                        Inl e \<Rightarrow> Inl e
                      | Inr availableQuota \<Rightarrow> Inr (admit now availableQuota st1))))"

text \<open>The \<open>.then\<close> and \<open>.catch\<close> handlers of a started job.\<close>

definition jobResolved :: "'f limiter \<Rightarrow> 'f limiter" where
  "jobResolved st = st\<lparr>running := running st - 1\<rparr>"

definition jobRejected :: "bool \<Rightarrow> real \<Rightarrow> 'f limiter \<Rightarrow> 'f limiter" where
  "jobRejected isQuotaError now st =
     (let st1 = (if isQuotaError \<and> currentLimit st \<noteq> None
                 then (case slowdown now st of Inr s \<Rightarrow> s | Inl e \<Rightarrow> st)
                 else st)
      in st1\<lparr>running := running st1 - 1\<rparr>)"

section \<open>DownloadPlugin.handleDirtyFiles (the retry orchestrator)\<close>

text \<open>
  \<open>handleDirtyFiles\<close> works on \<open>this.filesStructure\<close>, an instance of the class
  \<open>FilesStructure\<close>, and its jobs call \<open>GoogleDriveService\<close>, \<open>GoogleDocsService\<close>
  and \<open>ExternalFiles\<close>. Of these only \<open>GoogleDocsService\<close> is among the sources. The
  store is modelled from the spec below; whether the remote calls and file writes of
  a job succeed is a parameter \<open>transfer\<close> of the pass.
\<close>

text \<open>
  Modelled from the spec: the mime constants \<open>FilesStructure.CONFLICT_MIME\<close>,
  \<open>REDIRECT_MIME\<close>, \<open>DRAWING_MIME\<close> and \<open>DOCUMENT_MIME\<close>, missing from the sources,
  are four distinct values; every other mime type is an \<open>OtherMime\<close>.
\<close>

datatype mime = CONFLICT_MIME | REDIRECT_MIME | DRAWING_MIME | DOCUMENT_MIME | OtherMime string

text \<open>
  Modelled from the spec: a work item of the store of \<open>FilesStructure\<close>, missing from
  the sources, with the fields \<open>handleDirtyFiles\<close> reads: \<open>id\<close>, \<open>mimeType\<close>, \<open>size\<close>
  (\<open>None\<close> for \<open>undefined\<close>) and \<open>dirty\<close>. The store is the list of its items.
\<close>

record driveFile =
  file_id :: string
  mimeType :: mime
  size :: "nat option"
  dirty :: bool

type_synonym filesStructure = "driveFile list"

text \<open>
  Modelled from the spec: \<open>FilesStructure.findFiles\<close>, missing from the sources, is the
  pure enumeration of the items that satisfy a predicate (\<open>enumeratePending\<close> of
  section 6 when the predicate is \<open>item => !!item.dirty\<close>).
\<close>

definition findFiles :: "(driveFile \<Rightarrow> bool) \<Rightarrow> filesStructure \<Rightarrow> driveFile list" where
  "findFiles p fs = filter p fs"

text \<open>
  Modelled from the spec: \<open>FilesStructure.markClean\<close>, missing from the sources, is
  \<open>markResolved\<close> of section 6: it clears the \<open>dirty\<close> flag of the item with the given
  id, is idempotent and touches no other item.
\<close>

definition markClean :: "driveFile \<Rightarrow> filesStructure \<Rightarrow> filesStructure" where
  "markClean f fs = map (\<lambda>g. if file_id g = file_id f then g\<lparr>dirty := False\<rparr> else g) fs"

text \<open>
  Modelled from the spec: \<open>FilesStructure.markDirty\<close>, missing from the sources, is
  \<open>markPending\<close> of section 6: it sets the \<open>dirty\<close> flag of the item with the given id,
  is idempotent and touches no other item.
\<close>

definition markDirty :: "driveFile \<Rightarrow> filesStructure \<Rightarrow> filesStructure" where
  "markDirty f fs = map (\<lambda>g. if file_id g = file_id f then g\<lparr>dirty := True\<rparr> else g) fs"

text \<open>
  The promise pushed for one dirty file, by the \<open>if\<close> chain of the \<open>for\<close> loop; a file
  of another mime type with no \<open>size\<close> gets none.
\<close>

datatype task = MarkCleanTask | DownloadDiagram | DownloadDocument | DownloadAsset

definition dispatch :: "driveFile \<Rightarrow> task option" where
  "dispatch f =
     (if mimeType f = CONFLICT_MIME then Some MarkCleanTask
      else if mimeType f = REDIRECT_MIME then Some MarkCleanTask
      else if mimeType f = DRAWING_MIME then Some DownloadDiagram
      else if mimeType f = DOCUMENT_MIME then Some DownloadDocument
      else if size f \<noteq> None then Some DownloadAsset
      else None)"

definition promisesOf :: "driveFile list \<Rightarrow> (driveFile \<times> task) list" where
  "promisesOf dirtyFiles =
     concat (map (\<lambda>f. case dispatch f of None \<Rightarrow> [] | Some t \<Rightarrow> [(f, t)]) dirtyFiles)"

text \<open>
  How one promise settles. \<open>transfer f\<close> tells whether the remote calls and file
  writes of the job for \<open>f\<close> all succeed. \<open>downloadAsset\<close> and \<open>downloadDiagram\<close>
  mark the file clean after a successful transfer and rethrow otherwise;
  \<open>downloadDocument\<close> marks the file dirty in its \<open>catch\<close> before rethrowing (a
  failure of its \<open>ensureDir\<close>, before the \<open>try\<close>, leaves the flag as it is, which for
  a file enumerated as dirty is the same store). The files written and deleted on
  disk are not part of the store and are left out.
\<close>

datatype settled = Fulfilled | Rejected

definition runTask :: "(driveFile \<Rightarrow> bool) \<Rightarrow> driveFile \<times> task \<Rightarrow> filesStructure \<Rightarrow> settled \<times> filesStructure" where
  "runTask transfer p fs =
     (case snd p of
        MarkCleanTask \<Rightarrow> (Fulfilled, markClean (fst p) fs)
      | DownloadDiagram \<Rightarrow>
          if transfer (fst p) then (Fulfilled, markClean (fst p) fs) else (Rejected, fs)
      | DownloadDocument \<Rightarrow>
          if transfer (fst p) then (Fulfilled, markClean (fst p) fs)
          else (Rejected, markDirty (fst p) fs)
      | DownloadAsset \<Rightarrow>
          if transfer (fst p) then (Fulfilled, markClean (fst p) fs) else (Rejected, fs))"

text \<open>
  \<open>await Promise.allSettled(promises)\<close>: every promise runs to its settlement, the
  results are collected, and the join itself never rejects.
\<close>

fun allSettled :: "(driveFile \<Rightarrow> bool) \<Rightarrow> (driveFile \<times> task) list \<Rightarrow> filesStructure \<Rightarrow> settled list \<times> filesStructure" where
  "allSettled transfer [] fs = ([], fs)"
| "allSettled transfer (p # ps) fs =
     (let (r, fs1) = runTask transfer p fs;
          (rs, fs2) = allSettled transfer ps fs1
      in (r # rs, fs2))"

datatype event = DownloadRetry | DownloadClean

text \<open>
  The result of one pass: the store, the promises started and how they settled, the
  events emitted on the event bus before \<open>handleDirtyFiles\<close> returns, and the events
  whose \<open>emit\<close> was handed to \<open>process.nextTick\<close>.
\<close>

record pass =
  store :: filesStructure
  started :: "(driveFile \<times> task) list"
  results :: "settled list"
  emitted :: "event list"
  nextTick :: "event list"

definition handleDirtyFiles :: "(driveFile \<Rightarrow> bool) \<Rightarrow> filesStructure \<Rightarrow> pass" where
  "handleDirtyFiles transfer fs =
     (let dirtyFiles = findFiles dirty fs;
          promises = promisesOf dirtyFiles;
          (rs, fs1) = allSettled transfer promises fs;
          dirtyFilesAfter = findFiles dirty fs1
      in if length dirtyFilesAfter > 0
         then \<lparr>store = fs1, started = promises, results = rs, emitted = [], nextTick = [DownloadRetry]\<rparr>
         else \<lparr>store = fs1, started = promises, results = rs, emitted = [DownloadClean], nextTick = []\<rparr>)"

text \<open>Whether the item with id \<open>i\<close> is enumerated as pending.\<close>

definition isPending :: "filesStructure \<Rightarrow> string \<Rightarrow> bool" where
  "isPending fs i = (findFiles (\<lambda>g. dirty g \<and> file_id g = i) fs \<noteq> [])"

section \<open>Runs of the limiter\<close>

text \<open>
  The calls that reach a limiter, each with the clock value at which it happens: the
  public methods, the two timers (\<open>HandleQueue\<close> every 500 ms, \<open>Speedup\<close> every 5 s)
  and the settlement of a started job. A run stops at the first \<open>TypeError\<close>.
\<close>

datatype 'f op =
    SetInitialLimit int int
  | SetLimit int int
  | Slowdown
  | Speedup
  | AddJob "'f option"
  | HandleQueue
  | JobResolved
  | JobRejected bool

fun step :: "'f op \<Rightarrow> real \<Rightarrow> 'f limiter \<Rightarrow> error + 'f limiter" where
  "step (SetInitialLimit q s) now st = Inr (setInitialLimit q s now st)"
| "step (SetLimit q s) now st = Inr (snd (setLimit q s now st))"
| "step Slowdown now st = slowdown now st"
| "step Speedup now st = speedup now st"
| "step (AddJob f) now st = Inr (addJob f st)"
| "step HandleQueue now st = handleQueue now st"
| "step JobResolved now st = Inr (jobResolved st)"
| "step (JobRejected isQuotaError) now st = Inr (jobRejected isQuotaError now st)"

fun run :: "('f op \<times> real) list \<Rightarrow> 'f limiter \<Rightarrow> error + 'f limiter" where
  "run [] st = Inr st"
| "run ((c, now) # cs) st = (case step c now st of Inl e \<Rightarrow> Inl e | Inr st1 \<Rightarrow> run cs st1)"

text \<open>The invariant of the RateWindow: both values positive.\<close>

definition limit_ok :: "'f limiter \<Rightarrow> bool" where
  "limit_ok st = (case currentLimit st of None \<Rightarrow> True | Some l \<Rightarrow> 0 < queries l \<and> 0 < seconds l)"




section \<open>The RateWindow stays positive\<close>

lemma setLimit_limit_ok: "limit_ok st \<Longrightarrow> limit_ok (snd (setLimit q s now st))"
  by (auto simp: setLimit_def limit_ok_def split: option.splits)

lemma admit_currentLimit: "currentLimit (admit now a st) = currentLimit st"
proof (induction now a st rule: admit.induct)
  case (1 now a st)
  show ?case
  proof (cases "a > 0")
    case False
    then show ?thesis by (simp add: admit.simps)
  next
    case True
    show ?thesis
    proof (cases "startFirst now (jobs st)")
      case None
      with True show ?thesis by (simp add: admit.simps)
    next
      case (Some js)
      with True 1 show ?thesis by (subst admit.simps) simp
    qed
  qed
qed

lemma handleQueue_currentLimit:
  "handleQueue now st = Inr st' \<Longrightarrow> currentLimit st' = currentLimit st"
  by (auto simp: handleQueue_def Let_def removeOlderThan_def calculateAvailableQuota_def
        admit_currentLimit split: if_splits option.splits sum.splits)

lemma slowdown_limit_ok: "limit_ok st \<Longrightarrow> slowdown now st = Inr st' \<Longrightarrow> limit_ok st'"
  by (auto simp: slowdown_def Let_def setLimit_limit_ok split: option.splits)

lemma speedup_limit_ok: "limit_ok st \<Longrightarrow> speedup now st = Inr st' \<Longrightarrow> limit_ok st'"
  by (auto simp: speedup_def setLimit_limit_ok split: option.splits)

lemma jobRejected_limit_ok: "limit_ok st \<Longrightarrow> limit_ok (jobRejected b now st)"
proof -
  assume a: "limit_ok st"
  have "\<And>s. limit_ok s \<Longrightarrow> limit_ok (s\<lparr>running := running s - 1\<rparr>)"
    by (simp add: limit_ok_def)
  then show ?thesis using a
    by (auto simp: jobRejected_def Let_def split: sum.splits dest: slowdown_limit_ok)
qed

lemma step_limit_ok: "limit_ok st \<Longrightarrow> step c now st = Inr st' \<Longrightarrow> limit_ok st'"
proof -
  assume a: "limit_ok st" "step c now st = Inr st'"
  show ?thesis
  proof (cases c)
    case (SetInitialLimit q s)
    have "limit_ok (st\<lparr>initialLimit := Some (q, s)\<rparr>)" using a by (simp add: limit_ok_def)
    then show ?thesis using a SetInitialLimit
      by (auto simp: setInitialLimit_def intro: setLimit_limit_ok)
  next
    case (SetLimit q s)
    then show ?thesis using a by (auto intro: setLimit_limit_ok)
  next
    case Slowdown
    then show ?thesis using a by (auto intro: slowdown_limit_ok)
  next
    case Speedup
    then show ?thesis using a by (auto intro: speedup_limit_ok)
  next
    case (AddJob f)
    then show ?thesis using a by (auto simp: limit_ok_def addJob_def)
  next
    case HandleQueue
    then show ?thesis using a handleQueue_currentLimit[of now st st']
      by (simp add: limit_ok_def)
  next
    case JobResolved
    then show ?thesis using a by (auto simp: limit_ok_def jobResolved_def)
  next
    case (JobRejected b)
    then show ?thesis using a by (auto intro: jobRejected_limit_ok)
  qed
qed

lemma run_limit_ok: "limit_ok st \<Longrightarrow> run cs st = Inr st' \<Longrightarrow> limit_ok st'"
proof (induction cs arbitrary: st)
  case Nil
  then show ?case by simp
next
  case (Cons a cs)
  obtain c now where a: "a = (c, now)" by (cases a)
  from Cons.prems a obtain st1 where s: "step c now st = Inr st1" and r: "run cs st1 = Inr st'"
    by (auto split: sum.splits)
  from step_limit_ok[OF Cons.prems(1) s] Cons.IH r show ?case by blast
qed


text \<open>
  C8: \<open>setLimit\<close> with a non-positive \<open>queries\<close> or \<open>seconds\<close> returns false and
  leaves the limiter as it was, and after every run from a new limiter that raises
  no error the RateWindow, when set, has \<open>queries > 0\<close> and \<open>seconds > 0\<close>.
\<close>

theorem setLimit_rejects_nonpositive:
  "(q \<le> 0 \<or> s \<le> 0 \<longrightarrow> setLimit q s now st = (False, st)) \<and>
   (run cs (constructor js) = Inr st' \<longrightarrow> limit_ok st')"
proof -
  have "limit_ok (constructor js)" by (simp add: limit_ok_def constructor_def)
  then show ?thesis using run_limit_ok[of "constructor js" cs st'] by (auto simp: setLimit_def)
qed

theorem setLimit_rejects_nonpositive_witness:
  "((0::int) \<le> 0 \<or> (10::int) \<le> 0) \<and>
   setLimit 0 10 100 (constructor ([]::nat job list)) = (False, constructor []) \<and>
   run [(SetInitialLimit 10 10, 100), (Slowdown, 101)] (constructor ([]::nat job list)) =
     Inr \<lparr>jobs = [], running = 0, initialLimit = Some (10, 10),
          currentLimit = Some \<lparr>queries = 5, seconds = 5, ts = 101\<rparr>\<rparr> \<and>
   limit_ok \<lparr>jobs = ([]::nat job list), running = 0, initialLimit = Some (10, 10),
          currentLimit = Some \<lparr>queries = 5, seconds = 5, ts = 101\<rparr>\<rparr>"
proof -
  have r: "run [(SetInitialLimit 10 10, 100), (Slowdown, 101)] (constructor ([]::nat job list)) =
     Inr \<lparr>jobs = [], running = 0, initialLimit = Some (10, 10),
          currentLimit = Some \<lparr>queries = 5, seconds = 5, ts = 101\<rparr>\<rparr>"
    by (simp add: constructor_def setInitialLimit_def setLimit_def slowdown_def
          DELAY_AFTER_ERROR_def)
  note t = setLimit_rejects_nonpositive[of 0 10 100 "constructor ([]::nat job list)"
       "[(SetInitialLimit 10 10, 100), (Slowdown, 101)]" "[]"
       "\<lparr>jobs = [], running = 0, initialLimit = Some (10, 10),
         currentLimit = Some \<lparr>queries = 5, seconds = 5, ts = 101\<rparr>\<rparr>"]
  have h: "(0::int) \<le> 0 \<or> (10::int) \<le> 0" by simp
  from t h r show ?thesis by blast
qed

section \<open>Jobs that were never started stay queued\<close>

text \<open>
  C10: \<open>addJob\<close> appends an entry without a start time, and \<open>removeOlderThan\<close>, for
  every \<open>minTime\<close>, keeps every entry without a start time, in order.
\<close>

theorem removeOlderThan_keeps_unstarted:
  "filter (\<lambda>j. job_ts j = None) (jobs (removeOlderThan minTime (addJob f st))) =
   filter (\<lambda>j. job_ts j = None) (jobs st) @ [\<lparr>job_done = False, job_func = f, job_ts = None\<rparr>]"
  by (auto simp: removeOlderThan_def addJob_def keeps_def truthy_ts_def intro: filter_cong)

theorem removeOlderThan_keeps_unstarted_witness:
  "filter (\<lambda>j. job_ts j = None) (jobs (removeOlderThan 50 (addJob (Some (7::nat))
     \<lparr>jobs = [\<lparr>job_done = False, job_func = Some 1, job_ts = Some 10\<rparr>,
              \<lparr>job_done = False, job_func = Some 2, job_ts = None\<rparr>],
      running = 1, initialLimit = None, currentLimit = None\<rparr>))) =
   [\<lparr>job_done = False, job_func = Some 2, job_ts = None\<rparr>,
    \<lparr>job_done = False, job_func = Some 7, job_ts = None\<rparr>]"
  using removeOlderThan_keeps_unstarted[of 50 "Some (7::nat)"
     "\<lparr>jobs = [\<lparr>job_done = False, job_func = Some 1, job_ts = Some 10\<rparr>,
               \<lparr>job_done = False, job_func = Some 2, job_ts = None\<rparr>],
       running = 1, initialLimit = None, currentLimit = None\<rparr>"]
  by simp

section \<open>Speedup\<close>






section \<open>The cooldown\<close>

lemma setLimit_cooldown:
  "currentLimit st = Some l \<Longrightarrow> now - ts l < DELAY_AFTER_ERROR \<Longrightarrow> setLimit q s now st = (False, st)"
  by (simp add: setLimit_def)

lemma slowdown_cooldown:
  "currentLimit st = Some l \<Longrightarrow> now - ts l < DELAY_AFTER_ERROR \<Longrightarrow> slowdown now st = Inr st"
  by (simp add: slowdown_def Let_def setLimit_cooldown)

lemma step_cooldown:
  assumes "currentLimit st = Some l" "now - ts l < DELAY_AFTER_ERROR" "step c now st = Inr st'"
  shows "currentLimit st' = Some l"
proof (cases c)
  case (SetInitialLimit q s)
  have "setLimit q s now (st\<lparr>initialLimit := Some (q, s)\<rparr>) = (False, st\<lparr>initialLimit := Some (q, s)\<rparr>)"
    using assms by (intro setLimit_cooldown[of _ l]) simp_all
  moreover have "step c now st = Inr (snd (setLimit q s now (st\<lparr>initialLimit := Some (q, s)\<rparr>)))"
    using SetInitialLimit by (simp add: setInitialLimit_def)
  ultimately have "st' = st\<lparr>initialLimit := Some (q, s)\<rparr>" using assms(3) by simp
  then show ?thesis using assms(1) by simp
next
  case (SetLimit q s)
  then show ?thesis using assms by (auto simp: setLimit_cooldown)
next
  case Slowdown
  then show ?thesis using assms by (auto simp: slowdown_cooldown)
next
  case Speedup
  then show ?thesis using assms by (auto simp: speedup_def setLimit_cooldown)
next
  case (AddJob f)
  then show ?thesis using assms by (auto simp: addJob_def)
next
  case HandleQueue
  then show ?thesis using assms handleQueue_currentLimit[of now st st'] by simp
next
  case JobResolved
  then show ?thesis using assms by (auto simp: jobResolved_def)
next
  case (JobRejected b)
  then show ?thesis using assms by (auto simp: jobRejected_def slowdown_cooldown)
qed

text \<open>
  C5, as the code has it: every call made less than 5 seconds after the timestamp
  stored in the current RateWindow leaves the RateWindow unchanged. An accepted update
  of an existing RateWindow stores its own time, and an update with positive values
  made at least 5 seconds after the stored timestamp is accepted. The first RateWindow
  is stored with timestamp 0, not with the time of the call: an update with positive
  values that follows \<open>setInitialLimit\<close> on a new limiter is accepted whenever the clock
  is at least 5, however soon after \<open>setInitialLimit\<close> it comes.
\<close>

theorem cooldown_on_stored_timestamp:
  "(currentLimit st = Some l \<and> now - ts l < DELAY_AFTER_ERROR \<and> step c now st = Inr st'
      \<longrightarrow> currentLimit st' = Some l) \<and>
   (setLimit q s now st = (True, st2) \<longrightarrow>
      currentLimit st2 =
        Some \<lparr>queries = q, seconds = s, ts = (if currentLimit st = None then 0 else now)\<rparr>) \<and>
   (currentLimit st = Some l \<and> 0 < q \<and> 0 < s \<and> DELAY_AFTER_ERROR \<le> now - ts l \<longrightarrow>
      setLimit q s now st =
        (True, st\<lparr>currentLimit := Some \<lparr>queries = q, seconds = s, ts = now\<rparr>\<rparr>)) \<and>
   (currentLimit st = None \<and> 0 < q0 \<and> 0 < s0 \<longrightarrow>
      currentLimit (setInitialLimit q0 s0 now0 st) =
        Some \<lparr>queries = q0, seconds = s0, ts = 0\<rparr>) \<and>
   (currentLimit st = None \<and> 0 < q0 \<and> 0 < s0 \<and> 0 < q \<and> 0 < s \<and> DELAY_AFTER_ERROR \<le> now \<longrightarrow>
      setLimit q s now (setInitialLimit q0 s0 now0 st) =
        (True, (setInitialLimit q0 s0 now0 st)
                 \<lparr>currentLimit := Some \<lparr>queries = q, seconds = s, ts = now\<rparr>\<rparr>))"
proof (intro conjI)
  show "currentLimit st = Some l \<and> now - ts l < DELAY_AFTER_ERROR \<and> step c now st = Inr st'
      \<longrightarrow> currentLimit st' = Some l"
    using step_cooldown[of st l now c st'] by blast
  show "setLimit q s now st = (True, st2) \<longrightarrow>
      currentLimit st2 =
        Some \<lparr>queries = q, seconds = s, ts = (if currentLimit st = None then 0 else now)\<rparr>"
    by (auto simp: setLimit_def split: if_splits option.splits)
  show "currentLimit st = Some l \<and> 0 < q \<and> 0 < s \<and> DELAY_AFTER_ERROR \<le> now - ts l \<longrightarrow>
      setLimit q s now st =
        (True, st\<lparr>currentLimit := Some \<lparr>queries = q, seconds = s, ts = now\<rparr>\<rparr>)"
    by (simp add: setLimit_def)
  show "currentLimit st = None \<and> 0 < q0 \<and> 0 < s0 \<longrightarrow>
      currentLimit (setInitialLimit q0 s0 now0 st) =
        Some \<lparr>queries = q0, seconds = s0, ts = 0\<rparr>"
    by (simp add: setInitialLimit_def setLimit_def)
  show "currentLimit st = None \<and> 0 < q0 \<and> 0 < s0 \<and> 0 < q \<and> 0 < s \<and> DELAY_AFTER_ERROR \<le> now \<longrightarrow>
      setLimit q s now (setInitialLimit q0 s0 now0 st) =
        (True, (setInitialLimit q0 s0 now0 st)
                 \<lparr>currentLimit := Some \<lparr>queries = q, seconds = s, ts = now\<rparr>\<rparr>)"
    by (simp add: setInitialLimit_def setLimit_def)
qed

theorem cooldown_on_stored_timestamp_witness:
  "step Speedup 1003 \<lparr>jobs = ([]::nat job list), running = 0, initialLimit = Some (10, 10),
       currentLimit = Some \<lparr>queries = 10, seconds = 10, ts = 1000\<rparr>\<rparr> =
     Inr \<lparr>jobs = [], running = 0, initialLimit = Some (10, 10),
       currentLimit = Some \<lparr>queries = 10, seconds = 10, ts = 1000\<rparr>\<rparr> \<and>
   setLimit 20 10 1006 \<lparr>jobs = ([]::nat job list), running = 0, initialLimit = Some (10, 10),
       currentLimit = Some \<lparr>queries = 10, seconds = 10, ts = 1000\<rparr>\<rparr> =
     (True, \<lparr>jobs = [], running = 0, initialLimit = Some (10, 10),
       currentLimit = Some \<lparr>queries = 20, seconds = 10, ts = 1006\<rparr>\<rparr>) \<and>
   currentLimit (setInitialLimit 10 10 1000 (constructor ([]::nat job list))) =
     Some \<lparr>queries = 10, seconds = 10, ts = 0\<rparr> \<and>
   setLimit 20 10 1000 (setInitialLimit 10 10 1000 (constructor ([]::nat job list))) =
     (True, \<lparr>jobs = [], running = 0, initialLimit = Some (10, 10),
       currentLimit = Some \<lparr>queries = 20, seconds = 10, ts = 1000\<rparr>\<rparr>)"
proof -
  let ?l = "\<lparr>queries = 10, seconds = 10, ts = 1000\<rparr>"
  let ?st = "\<lparr>jobs = ([]::nat job list), running = 0, initialLimit = Some (10, 10),
       currentLimit = Some ?l\<rparr>"
  let ?new = "constructor ([]::nat job list)"
  have a: "step Speedup 1003 ?st = Inr ?st"
    by (simp add: speedup_def plusOne_def setLimit_def DELAY_AFTER_ERROR_def)
  have c: "currentLimit ?st = Some ?l" by simp
  have d: "(1003::real) - ts ?l < DELAY_AFTER_ERROR"
    by (simp add: DELAY_AFTER_ERROR_def)
  have e: "(0::int) < 20" "(0::int) < 10" "DELAY_AFTER_ERROR \<le> 1006 - ts ?l"
    "DELAY_AFTER_ERROR \<le> 1000" "currentLimit ?new = None"
    by (simp_all add: DELAY_AFTER_ERROR_def constructor_def)
  have i: "setInitialLimit 10 10 1000 ?new =
      \<lparr>jobs = [], running = 0, initialLimit = Some (10, 10),
       currentLimit = Some \<lparr>queries = 10, seconds = 10, ts = 0\<rparr>\<rparr>"
    by (simp add: setInitialLimit_def setLimit_def constructor_def)
  note t1 = cooldown_on_stored_timestamp[of ?st ?l 1003 Speedup ?st 20 10 st2 10 10 1000 for st2]
  note t2 = cooldown_on_stored_timestamp[of ?st ?l 1006 c st' 20 10 st2 10 10 1000 for c st' st2]
  note t3 = cooldown_on_stored_timestamp[of ?new l 1000 c st' 20 10 st2 10 10 1000 for l c st' st2]
  have w1: "currentLimit ?st = Some ?l" using t1 a c d by blast
  have w2: "setLimit 20 10 1006 ?st =
      (True, ?st\<lparr>currentLimit := Some \<lparr>queries = 20, seconds = 10, ts = 1006\<rparr>\<rparr>)"
    using t2 c e by blast
  have w3: "currentLimit (setInitialLimit 10 10 1000 ?new) =
      Some \<lparr>queries = 10, seconds = 10, ts = 0\<rparr>"
    using t3 e by blast
  have w4: "setLimit 20 10 1000 (setInitialLimit 10 10 1000 ?new) =
      (True, (setInitialLimit 10 10 1000 ?new)
               \<lparr>currentLimit := Some \<lparr>queries = 20, seconds = 10, ts = 1000\<rparr>\<rparr>)"
    using t3 e by blast
  show ?thesis using a w2 w3 w4 by (simp add: i)
qed

text \<open>
  The claim includes the initial update in the cooldown. A speedup one second after
  \<open>setInitialLimit\<close> on a new limiter replaces the RateWindow.
\<close>

theorem cooldown_initial_counterexample:
  "currentLimit (setInitialLimit 10 10 1000 (constructor ([]::nat job list))) =
     Some \<lparr>queries = 10, seconds = 10, ts = 0\<rparr> \<and>
   (1001::real) - 1000 < DELAY_AFTER_ERROR \<and>
   step Speedup 1001 (setInitialLimit 10 10 1000 (constructor ([]::nat job list))) =
     Inr \<lparr>jobs = [], running = 0, initialLimit = Some (10, 10),
          currentLimit = Some \<lparr>queries = 11, seconds = 10, ts = 1001\<rparr>\<rparr>"
  by (simp add: setInitialLimit_def setLimit_def constructor_def speedup_def plusOne_def
        DELAY_AFTER_ERROR_def)

section \<open>setInitialLimit followed by setLimit\<close>

text \<open>
  C3, as the code has it: on a limiter without a RateWindow, \<open>setInitialLimit\<close> with
  positive values stores them with timestamp 0. A following \<open>setLimit\<close> with the same
  values keeps \<open>queries\<close> and \<open>seconds\<close>; it is rejected and changes nothing only when
  the clock itself is below 5, and otherwise it is accepted and moves the timestamp to
  the time of the call.
\<close>

theorem setInitialLimit_then_setLimit:
  assumes "0 < q" "0 < s" "currentLimit st = None"
  shows "currentLimit (setInitialLimit q s now1 st) = Some \<lparr>queries = q, seconds = s, ts = 0\<rparr> \<and>
         setLimit q s now2 (setInitialLimit q s now1 st) =
           (if now2 < DELAY_AFTER_ERROR then (False, setInitialLimit q s now1 st)
            else (True, (setInitialLimit q s now1 st)
                   \<lparr>currentLimit := Some \<lparr>queries = q, seconds = s, ts = now2\<rparr>\<rparr>))"
  using assms by (simp add: setInitialLimit_def setLimit_def)

theorem setInitialLimit_then_setLimit_witness:
  "currentLimit (setInitialLimit 10 10 1000 (constructor ([]::nat job list))) =
     Some \<lparr>queries = 10, seconds = 10, ts = 0\<rparr> \<and>
   setLimit 10 10 1001 (setInitialLimit 10 10 1000 (constructor ([]::nat job list))) =
     (True, (setInitialLimit 10 10 1000 (constructor []))
              \<lparr>currentLimit := Some \<lparr>queries = 10, seconds = 10, ts = 1001\<rparr>\<rparr>)"
  using setInitialLimit_then_setLimit[of 10 10 "constructor ([]::nat job list)" 1000 1001]
  by (simp add: constructor_def DELAY_AFTER_ERROR_def)

text \<open>
  The claim makes the second call a no-op. One second after \<open>setInitialLimit\<close> at
  clock 1000, \<open>setLimit\<close> with the same values returns true and changes the limiter.
\<close>

theorem setInitialLimit_then_setLimit_counterexample:
  "(1001::real) - 1000 < DELAY_AFTER_ERROR \<and>
   fst (setLimit 10 10 1001 (setInitialLimit 10 10 1000 (constructor ([]::nat job list)))) \<and>
   snd (setLimit 10 10 1001 (setInitialLimit 10 10 1000 (constructor ([]::nat job list)))) \<noteq>
     setInitialLimit 10 10 1000 (constructor [])"
  by (simp add: setInitialLimit_def setLimit_def constructor_def DELAY_AFTER_ERROR_def)

section \<open>Slowdown\<close>









section \<open>The scheduling tick\<close>

lemma startFirst_fields:
  "startFirst now js = Some js' \<Longrightarrow>
     map job_func js' = map job_func js \<and> map job_done js' = map job_done js"
  by (induction js arbitrary: js') (auto split: if_splits)

lemma startFirst_quotaUsed:
  "startFirst now js = Some js' \<Longrightarrow> quotaUsed now l js' \<le> quotaUsed now l js + 1"
proof (induction js arbitrary: js')
  case Nil
  then show ?case by simp
next
  case (Cons j js)
  show ?case
  proof (cases "notStarted j")
    case True
    with Cons.prems have "js' = j\<lparr>job_ts := Some now\<rparr> # js" by simp
    then show ?thesis by (simp add: quotaUsed_def)
  next
    case False
    with Cons.prems obtain js1 where s: "startFirst now js = Some js1" "js' = j # js1" by auto
    from Cons.IH[OF s(1)] s(2) show ?thesis by (simp add: quotaUsed_def)
  qed
qed

lemma admit_fields:
  "map job_func (jobs (admit now a st)) = map job_func (jobs st) \<and>
   map job_done (jobs (admit now a st)) = map job_done (jobs st)"
proof (induction now a st rule: admit.induct)
  case (1 now a st)
  show ?case
  proof (cases "0 < a")
    case False
    then show ?thesis by (simp add: admit.simps)
  next
    case True
    show ?thesis
    proof (cases "startFirst now (jobs st)")
      case None
      with True show ?thesis by (simp add: admit.simps)
    next
      case (Some js)
      from 1[OF True Some] startFirst_fields[OF Some] True Some
      show ?thesis by (subst (1 2) admit.simps) simp
    qed
  qed
qed

lemma admit_bounds:
  "quotaUsed now l (jobs (admit now a st)) \<le> quotaUsed now l (jobs st) + max 0 a \<and>
   running (admit now a st) \<le> running st + max 0 a \<and>
   running st \<le> running (admit now a st)"
proof (induction now a st rule: admit.induct)
  case (1 now a st)
  show ?case
  proof (cases "0 < a")
    case False
    then show ?thesis by (simp add: admit.simps)
  next
    case True
    show ?thesis
    proof (cases "startFirst now (jobs st)")
      case None
      with True show ?thesis by (simp add: admit.simps)
    next
      case (Some js)
      have e: "admit now a st = admit now (a - 1) (st\<lparr>jobs := js, running := running st + 1\<rparr>)"
        using True Some by (subst admit.simps) simp
      from 1[OF True Some] startFirst_quotaUsed[OF Some, of l] True
      show ?thesis unfolding e by simp
    qed
  qed
qed

lemma removeOlderThan_quotaUsed:
  "quotaUsed now l (jobs (removeOlderThan m st)) \<le> quotaUsed now l (jobs st)"
proof -
  have "length (filter P (filter Q xs)) \<le> length (filter P xs)" for P Q and xs :: "'a job list"
    by (induction xs) (auto simp: le_SucI)
  then show ?thesis by (simp add: quotaUsed_def removeOlderThan_def del: filter_filter)
qed

lemma handleQueue_admits:
  assumes "currentLimit st = Some l" "running st \<le> CONCURRENCY"
    "DELAY_AFTER_ERROR \<le> now - ts l"
  shows "handleQueue now st =
     Inr (admit now
           (if CONCURRENCY > queries l - quotaUsed now l
                 (jobs (removeOlderThan (now - real_of_int (seconds l)) st))
            then queries l - quotaUsed now l
                 (jobs (removeOlderThan (now - real_of_int (seconds l)) st))
            else CONCURRENCY)
           (removeOlderThan (now - real_of_int (seconds l)) st))"
  using assms
  by (simp add: handleQueue_def calculateAvailableQuota_def removeOlderThan_def Let_def)

lemma handleQueue_respects_quota:
  assumes "handleQueue now st = Inr st'" "currentLimit st = Some l"
    "quotaUsed now l (jobs st) \<le> queries l"
  shows "quotaUsed now l (jobs st') \<le> queries l"
proof (cases "running st > CONCURRENCY \<or> now - ts l < DELAY_AFTER_ERROR")
  case True
  then have "st' = st" using assms(1,2) by (auto simp: handleQueue_def split: if_splits)
  then show ?thesis using assms(3) by simp
next
  case False
  define st1 where "st1 = removeOlderThan (now - real_of_int (seconds l)) st"
  define u where "u = quotaUsed now l (jobs st1)"
  define a where "a = (if CONCURRENCY > queries l - u then queries l - u else CONCURRENCY)"
  have "handleQueue now st = Inr (admit now a st1)"
    unfolding a_def u_def st1_def using False by (intro handleQueue_admits[OF assms(2)]) simp_all
  then have st': "st' = admit now a st1" using assms(1) by simp
  have u: "u \<le> queries l"
    unfolding u_def st1_def
    using removeOlderThan_quotaUsed[of now l "now - real_of_int (seconds l)" st] assms(3)
    by linarith
  have "quotaUsed now l (jobs st') \<le> u + max 0 a"
    unfolding st' u_def using admit_bounds[of now l a st1] by blast
  also have "\<dots> \<le> queries l" using u by (simp add: a_def CONCURRENCY_def)
  finally show ?thesis .
qed

lemma handleQueue_running:
  assumes "handleQueue now st = Inr st'"
  shows "running st \<le> running st' \<and> running st' \<le> running st + CONCURRENCY \<and>
         (CONCURRENCY < running st \<longrightarrow> st' = st)"
proof (cases "running st > CONCURRENCY")
  case True
  then show ?thesis using assms by (simp add: handleQueue_def CONCURRENCY_def)
next
  case r: False
  then obtain l where l: "currentLimit st = Some l" using assms
    by (auto simp: handleQueue_def split: option.splits)
  show ?thesis
  proof (cases "now - ts l < DELAY_AFTER_ERROR")
    case True
    then show ?thesis using assms l r by (simp add: handleQueue_def CONCURRENCY_def)
  next
    case False
    define st1 where "st1 = removeOlderThan (now - real_of_int (seconds l)) st"
    define u where "u = quotaUsed now l (jobs st1)"
    define a where "a = (if CONCURRENCY > queries l - u then queries l - u else CONCURRENCY)"
    have "handleQueue now st = Inr (admit now a st1)"
      unfolding a_def u_def st1_def using False r by (intro handleQueue_admits[OF l]) simp_all
    then have st': "st' = admit now a st1" using assms(1) by simp
    have "max 0 a \<le> CONCURRENCY" by (simp add: a_def CONCURRENCY_def)
    moreover have "running st1 = running st" by (simp add: st1_def removeOlderThan_def)
    ultimately show ?thesis using admit_bounds[of now l a st1] r unfolding st' by linarith
  qed
qed

text \<open>
  A tick that is skipped changes nothing, and a tick never starts more than
  \<open>CONCURRENCY\<close> jobs; so twice \<open>CONCURRENCY\<close> bounds the running counter across ticks.
\<close>

lemma handleQueue_running_twice:
  assumes "handleQueue now st = Inr st'" "running st \<le> 2 * CONCURRENCY"
  shows "running st' \<le> 2 * CONCURRENCY"
proof (cases "CONCURRENCY < running st")
  case True
  then show ?thesis using handleQueue_running[OF assms(1)] assms(2) by simp
next
  case False
  then show ?thesis using handleQueue_running[OF assms(1)] by linarith
qed

text \<open>
  The bound is reached: on a new limiter with a RateWindow of 100 per 10 s and 40 jobs
  submitted, three ticks one second apart, with no job settling in between, leave 32
  jobs running.
\<close>

lemma run_reaches_twice_CONCURRENCY:
  "map_sum id running
     (run ((SetInitialLimit 100 10, 1000) # replicate 40 (AddJob (Some (0::nat)), 1000) @
           [(HandleQueue, 1000), (HandleQueue, 1001), (HandleQueue, 1002)])
        (constructor [])) = Inr 32"
  by code_simp

text \<open>
  C1: the tick is skipped only when \<open>running > CONCURRENCY\<close>. With 16 jobs running,
  a RateWindow of 10 per 10 s and one job waiting, the tick at clock 100 starts the
  job: 17 jobs are running.
\<close>

theorem handleQueue_admits_at_ceiling:
  "handleQueue 100
     \<lparr>jobs = [\<lparr>job_done = False, job_func = Some (1::nat), job_ts = None\<rparr>], running = 16,
      initialLimit = Some (10, 10), currentLimit = Some \<lparr>queries = 10, seconds = 10, ts = 0\<rparr>\<rparr> =
   Inr \<lparr>jobs = [\<lparr>job_done = False, job_func = Some 1, job_ts = Some 100\<rparr>], running = 17,
      initialLimit = Some (10, 10), currentLimit = Some \<lparr>queries = 10, seconds = 10, ts = 0\<rparr>\<rparr>"
  by (simp add: handleQueue_def CONCURRENCY_def DELAY_AFTER_ERROR_def removeOlderThan_def
        keeps_def truthy_ts_def calculateAvailableQuota_def quotaUsed_def inWindow_def
        admit.simps notStarted_def)

section \<open>Eviction\<close>

text \<open>
  C4, as the code has it: a tick that passes its two guards evicts exactly the entries
  whose start time is set, is not 0 and lies more than \<open>seconds\<close> in the past; the
  entries that stay keep their order, their \<open>func\<close> and their \<open>done\<close> flag. Whether
  a job has resolved plays no part.
\<close>

theorem handleQueue_evicts_by_start_time:
  assumes "currentLimit st = Some l" "running st \<le> CONCURRENCY"
    "DELAY_AFTER_ERROR \<le> now - ts l"
  shows "(\<exists>st'. handleQueue now st = Inr st' \<and>
            map job_func (jobs st') =
              map job_func (filter (keeps (now - real_of_int (seconds l))) (jobs st)) \<and>
            map job_done (jobs st') =
              map job_done (filter (keeps (now - real_of_int (seconds l))) (jobs st))) \<and>
         keeps (now - real_of_int (seconds l)) j =
           (case job_ts j of None \<Rightarrow> True
            | Some t \<Rightarrow> t = 0 \<or> now - t \<le> real_of_int (seconds l))"
proof -
  let ?st1 = "removeOlderThan (now - real_of_int (seconds l)) st"
  let ?u = "quotaUsed now l (jobs ?st1)"
  let ?a = "if CONCURRENCY > queries l - ?u then queries l - ?u else CONCURRENCY"
  have "handleQueue now st = Inr (admit now ?a ?st1)"
    using assms by (rule handleQueue_admits)
  moreover have "jobs ?st1 = filter (keeps (now - real_of_int (seconds l))) (jobs st)"
    by (simp add: removeOlderThan_def)
  ultimately have "\<exists>st'. handleQueue now st = Inr st' \<and>
            map job_func (jobs st') =
              map job_func (filter (keeps (now - real_of_int (seconds l))) (jobs st)) \<and>
            map job_done (jobs st') =
              map job_done (filter (keeps (now - real_of_int (seconds l))) (jobs st))"
    using admit_fields[of now ?a ?st1] by simp
  moreover have "keeps (now - real_of_int (seconds l)) j =
           (case job_ts j of None \<Rightarrow> True
            | Some t \<Rightarrow> t = 0 \<or> now - t \<le> real_of_int (seconds l))"
    by (auto simp: keeps_def truthy_ts_def split: option.splits)
  ultimately show ?thesis by blast
qed

theorem handleQueue_evicts_by_start_time_witness:
  "handleQueue 100
     \<lparr>jobs = [\<lparr>job_done = False, job_func = Some (1::nat), job_ts = Some 50\<rparr>,
              \<lparr>job_done = False, job_func = Some 2, job_ts = Some 95\<rparr>,
              \<lparr>job_done = False, job_func = Some 3, job_ts = None\<rparr>], running = 2,
      initialLimit = Some (10, 10), currentLimit = Some \<lparr>queries = 10, seconds = 10, ts = 0\<rparr>\<rparr> =
   Inr \<lparr>jobs = [\<lparr>job_done = False, job_func = Some 2, job_ts = Some 95\<rparr>,
              \<lparr>job_done = False, job_func = Some 3, job_ts = Some 100\<rparr>], running = 3,
      initialLimit = Some (10, 10), currentLimit = Some \<lparr>queries = 10, seconds = 10, ts = 0\<rparr>\<rparr>"
proof -
  let ?l = "\<lparr>queries = 10, seconds = 10, ts = 0\<rparr>"
  let ?st = "\<lparr>jobs = [\<lparr>job_done = False, job_func = Some (1::nat), job_ts = Some 50\<rparr>,
              \<lparr>job_done = False, job_func = Some 2, job_ts = Some 95\<rparr>,
              \<lparr>job_done = False, job_func = Some 3, job_ts = None\<rparr>], running = 2,
      initialLimit = Some (10, 10), currentLimit = Some ?l\<rparr>"
  have h: "currentLimit ?st = Some ?l" "running ?st \<le> CONCURRENCY"
    "DELAY_AFTER_ERROR \<le> 100 - ts ?l"
    by (simp_all add: CONCURRENCY_def DELAY_AFTER_ERROR_def)
  have e: "handleQueue 100 ?st =
     Inr \<lparr>jobs = [\<lparr>job_done = False, job_func = Some 2, job_ts = Some 95\<rparr>,
              \<lparr>job_done = False, job_func = Some 3, job_ts = Some 100\<rparr>], running = 3,
      initialLimit = Some (10, 10), currentLimit = Some ?l\<rparr>"
    by (simp add: handleQueue_def CONCURRENCY_def DELAY_AFTER_ERROR_def removeOlderThan_def
        keeps_def truthy_ts_def calculateAvailableQuota_def quotaUsed_def inWindow_def
        admit.simps notStarted_def)
  from handleQueue_evicts_by_start_time[OF h] e show ?thesis by simp
qed

text \<open>
  The claim keeps a started job that has not resolved. A job started at clock 50 and
  still running is evicted by the tick at clock 100 with a window of 10 s.
\<close>

theorem handleQueue_evicts_unresolved_counterexample:
  "handleQueue 100
     \<lparr>jobs = [\<lparr>job_done = False, job_func = Some (1::nat), job_ts = Some 50\<rparr>], running = 1,
      initialLimit = Some (10, 10), currentLimit = Some \<lparr>queries = 10, seconds = 10, ts = 0\<rparr>\<rparr> =
   Inr \<lparr>jobs = [], running = 1,
      initialLimit = Some (10, 10), currentLimit = Some \<lparr>queries = 10, seconds = 10, ts = 0\<rparr>\<rparr>"
  by (simp add: handleQueue_def CONCURRENCY_def DELAY_AFTER_ERROR_def removeOlderThan_def
        keeps_def truthy_ts_def calculateAvailableQuota_def quotaUsed_def inWindow_def
        admit.simps notStarted_def)

section \<open>One pass of the orchestrator\<close>

lemma isPending_iff: "isPending fs i = (\<exists>g\<in>set fs. dirty g \<and> file_id g = i)"
  by (auto simp: isPending_def findFiles_def filter_empty_conv)

lemma isPending_markClean: "isPending (markClean f fs) i = (i \<noteq> file_id f \<and> isPending fs i)"
  by (auto simp: isPending_iff markClean_def)

lemma isPending_markDirty:
  "isPending (markDirty f fs) i =
     (if i = file_id f then i \<in> file_id ` set fs else isPending fs i)"
  by (induction fs) (auto simp: isPending_iff markDirty_def)

lemma ids_markClean: "map file_id (markClean f fs) = map file_id fs"
  by (simp add: markClean_def comp_def)

lemma ids_markDirty: "map file_id (markDirty f fs) = map file_id fs"
  by (simp add: markDirty_def comp_def)

lemma ids_runTask: "map file_id (snd (runTask transfer p fs)) = map file_id fs"
  by (simp add: runTask_def ids_markClean ids_markDirty split: task.splits)

lemma runTask_other:
  "i \<noteq> file_id (fst p) \<Longrightarrow> isPending (snd (runTask transfer p fs)) i = isPending fs i"
  by (simp add: runTask_def isPending_markClean isPending_markDirty split: task.splits)

lemma runTask_own:
  assumes "file_id f \<in> file_id ` set fs" "isPending fs (file_id f)"
  shows "isPending (snd (runTask transfer (f, t) fs)) (file_id f) =
           (t \<noteq> MarkCleanTask \<and> \<not> transfer f)"
  using assms
  by (cases t) (simp_all add: runTask_def isPending_markClean isPending_markDirty)

lemma allSettled_length: "length (fst (allSettled transfer ps fs)) = length ps"
  by (induction ps arbitrary: fs) (simp_all add: split_beta)

lemma allSettled_other:
  "i \<notin> (\<lambda>q. file_id (fst q)) ` set ps \<Longrightarrow>
     isPending (snd (allSettled transfer ps fs)) i = isPending fs i"
proof (induction ps arbitrary: fs)
  case Nil
  then show ?case by simp
next
  case (Cons p ps)
  then have "i \<noteq> file_id (fst p)" "i \<notin> (\<lambda>q. file_id (fst q)) ` set ps" by auto
  with Cons.IH[of "snd (runTask transfer p fs)"] runTask_other[of i p transfer fs]
  show ?case by (simp add: split_beta)
qed

lemma allSettled_own:
  assumes "distinct (map (\<lambda>q. file_id (fst q)) ps)" "(f, t) \<in> set ps"
    "file_id f \<in> file_id ` set fs" "isPending fs (file_id f)"
  shows "isPending (snd (allSettled transfer ps fs)) (file_id f) =
           (t \<noteq> MarkCleanTask \<and> \<not> transfer f)"
  using assms
proof (induction ps arbitrary: fs)
  case Nil
  then show ?case by simp
next
  case (Cons p ps)
  let ?fs1 = "snd (runTask transfer p fs)"
  have step: "snd (allSettled transfer (p # ps) fs) = snd (allSettled transfer ps ?fs1)"
    by (simp add: split_beta)
  show ?case
  proof (cases "p = (f, t)")
    case True
    then have "file_id f \<notin> (\<lambda>q. file_id (fst q)) ` set ps" using Cons.prems(1) by auto
    then have "isPending (snd (allSettled transfer ps ?fs1)) (file_id f) =
        isPending ?fs1 (file_id f)"
      by (rule allSettled_other)
    also have "\<dots> = (t \<noteq> MarkCleanTask \<and> \<not> transfer f)"
      using True runTask_own[OF Cons.prems(3,4)] by simp
    finally show ?thesis using step by simp
  next
    case False
    then have m: "(f, t) \<in> set ps" using Cons.prems(2) by simp
    have ne: "file_id f \<noteq> file_id (fst p)"
    proof
      assume eq: "file_id f = file_id (fst p)"
      have "(\<lambda>q. file_id (fst q)) (f, t) \<in> (\<lambda>q. file_id (fst q)) ` set ps"
        using m by (rule imageI)
      then have "file_id f \<in> (\<lambda>q. file_id (fst q)) ` set ps" by simp
      then have "file_id (fst p) \<in> (\<lambda>q. file_id (fst q)) ` set ps"
        by (simp only: eq)
      then show False using Cons.prems(1) by simp
    qed
    have d: "distinct (map (\<lambda>q. file_id (fst q)) ps)" using Cons.prems(1) by simp
    have "set (map file_id ?fs1) = set (map file_id fs)" by (simp only: ids_runTask)
    then have e: "file_id f \<in> file_id ` set ?fs1" using Cons.prems(3) by simp
    have q: "isPending ?fs1 (file_id f)"
      using runTask_other[OF ne, of transfer fs] Cons.prems(4) by simp
    from Cons.IH[OF d m e q] step show ?thesis by simp
  qed
qed

text \<open>
  The model settles the promises in the order of the loop. Any other order of the
  same promises leaves the same pending flag for each of their files.
\<close>

lemma allSettled_order:
  assumes "distinct (map (\<lambda>q. file_id (fst q)) ps)" "distinct (map (\<lambda>q. file_id (fst q)) ps')"
    "set ps' = set ps" "(f, t) \<in> set ps"
    "file_id f \<in> file_id ` set fs" "isPending fs (file_id f)"
  shows "isPending (snd (allSettled transfer ps' fs)) (file_id f) =
         isPending (snd (allSettled transfer ps fs)) (file_id f)"
proof -
  have "(f, t) \<in> set ps'" using assms(3,4) by simp
  from allSettled_own[OF assms(2) this assms(5,6), of transfer]
    allSettled_own[OF assms(1,4,5,6), of transfer]
  show ?thesis by simp
qed

lemma promisesOf_set:
  "((f, t) \<in> set (promisesOf xs)) = (f \<in> set xs \<and> dispatch f = Some t)"
  by (auto simp: promisesOf_def split: option.splits)

lemma promisesOf_ids: "(\<lambda>q. file_id (fst q)) ` set (promisesOf xs) \<subseteq> file_id ` set xs"
  by (auto simp: promisesOf_set)

lemma promisesOf_Cons:
  "promisesOf (x # xs) = (case dispatch x of None \<Rightarrow> [] | Some t \<Rightarrow> [(x, t)]) @ promisesOf xs"
  by (simp add: promisesOf_def)

lemma promisesOf_distinct:
  "distinct (map file_id xs) \<Longrightarrow> distinct (map (\<lambda>q. file_id (fst q)) (promisesOf xs))"
proof (induction xs)
  case Nil
  then show ?case by (simp add: promisesOf_def)
next
  case (Cons x xs)
  then have "file_id x \<notin> (\<lambda>q. file_id (fst q)) ` set (promisesOf xs)"
    using promisesOf_ids[of xs] by auto
  with Cons show ?case by (auto simp: promisesOf_Cons split: option.splits)
qed

lemma handleDirtyFiles_fields:
  "started (handleDirtyFiles transfer fs) = promisesOf (findFiles dirty fs) \<and>
   results (handleDirtyFiles transfer fs) =
     fst (allSettled transfer (promisesOf (findFiles dirty fs)) fs) \<and>
   store (handleDirtyFiles transfer fs) =
     snd (allSettled transfer (promisesOf (findFiles dirty fs)) fs)"
  by (simp add: handleDirtyFiles_def Let_def split_beta)

text \<open>
  C6: in a pass over a store with distinct ids, every dirty file that the \<open>if\<close> chain
  gives a job has its job started, whatever becomes of the other jobs; the join
  collects one result for every started job and never fails; and after the pass the
  file is pending again exactly when its own job was a transfer that failed. Nothing
  in this depends on how the jobs of the other files settle.
\<close>

theorem handleDirtyFiles_isolation:
  assumes "distinct (map file_id fs)" "f \<in> set fs" "dirty f" "dispatch f = Some t"
  shows "(f, t) \<in> set (started (handleDirtyFiles transfer fs)) \<and>
         length (results (handleDirtyFiles transfer fs)) =
           length (started (handleDirtyFiles transfer fs)) \<and>
         isPending (store (handleDirtyFiles transfer fs)) (file_id f) =
           (t \<noteq> MarkCleanTask \<and> \<not> transfer f)"
proof -
  let ?ps = "promisesOf (findFiles dirty fs)"
  have m: "(f, t) \<in> set ?ps" using assms(2-4) by (simp add: promisesOf_set findFiles_def)
  have "distinct (map file_id (findFiles dirty fs))"
    using assms(1) by (simp add: findFiles_def distinct_map_filter)
  then have d: "distinct (map (\<lambda>q. file_id (fst q)) ?ps)" by (rule promisesOf_distinct)
  have e: "file_id f \<in> file_id ` set fs" using assms(2) by simp
  have p: "isPending fs (file_id f)" using assms(2,3) by (auto simp: isPending_iff)
  from allSettled_own[OF d m e p, of transfer] m allSettled_length[of transfer ?ps fs]
  show ?thesis by (simp add: handleDirtyFiles_fields)
qed

theorem handleDirtyFiles_isolation_witness:
  "handleDirtyFiles (\<lambda>f. file_id f \<noteq> ''a'')
     [\<lparr>file_id = ''a'', mimeType = DOCUMENT_MIME, size = None, dirty = True\<rparr>,
      \<lparr>file_id = ''b'', mimeType = OtherMime ''image/png'', size = Some 10, dirty = True\<rparr>,
      \<lparr>file_id = ''c'', mimeType = CONFLICT_MIME, size = None, dirty = True\<rparr>] =
   \<lparr>store =
      [\<lparr>file_id = ''a'', mimeType = DOCUMENT_MIME, size = None, dirty = True\<rparr>,
       \<lparr>file_id = ''b'', mimeType = OtherMime ''image/png'', size = Some 10, dirty = False\<rparr>,
       \<lparr>file_id = ''c'', mimeType = CONFLICT_MIME, size = None, dirty = False\<rparr>],
    started =
      [(\<lparr>file_id = ''a'', mimeType = DOCUMENT_MIME, size = None, dirty = True\<rparr>, DownloadDocument),
       (\<lparr>file_id = ''b'', mimeType = OtherMime ''image/png'', size = Some 10, dirty = True\<rparr>, DownloadAsset),
       (\<lparr>file_id = ''c'', mimeType = CONFLICT_MIME, size = None, dirty = True\<rparr>, MarkCleanTask)],
    results = [Rejected, Fulfilled, Fulfilled],
    emitted = [], nextTick = [DownloadRetry]\<rparr> \<and>
   \<not> isPending (store (handleDirtyFiles (\<lambda>f. file_id f \<noteq> ''a'')
     [\<lparr>file_id = ''a'', mimeType = DOCUMENT_MIME, size = None, dirty = True\<rparr>,
      \<lparr>file_id = ''b'', mimeType = OtherMime ''image/png'', size = Some 10, dirty = True\<rparr>,
      \<lparr>file_id = ''c'', mimeType = CONFLICT_MIME, size = None, dirty = True\<rparr>])) ''b''"
proof -
  let ?a = "\<lparr>file_id = ''a'', mimeType = DOCUMENT_MIME, size = None, dirty = True\<rparr>"
  let ?b = "\<lparr>file_id = ''b'', mimeType = OtherMime ''image/png'', size = Some 10, dirty = True\<rparr>"
  let ?c = "\<lparr>file_id = ''c'', mimeType = CONFLICT_MIME, size = None, dirty = True\<rparr>"
  let ?tr = "\<lambda>f. file_id f \<noteq> ''a''"
  have h: "distinct (map file_id [?a, ?b, ?c])" "?b \<in> set [?a, ?b, ?c]" "dirty ?b"
    "dispatch ?b = Some DownloadAsset"
    by (simp_all add: dispatch_def)
  have e: "handleDirtyFiles ?tr [?a, ?b, ?c] =
    \<lparr>store = [?a, ?b\<lparr>dirty := False\<rparr>, ?c\<lparr>dirty := False\<rparr>],
     started = [(?a, DownloadDocument), (?b, DownloadAsset), (?c, MarkCleanTask)],
     results = [Rejected, Fulfilled, Fulfilled],
     emitted = [], nextTick = [DownloadRetry]\<rparr>"
    by (simp add: handleDirtyFiles_def findFiles_def promisesOf_def dispatch_def runTask_def
          markClean_def markDirty_def)
  from handleDirtyFiles_isolation[OF h, of ?tr] e show ?thesis by simp
qed

text \<open>
  C7: the pending items are enumerated again on the store left by the settled batch,
  and exactly one signal follows: \<open>download:clean\<close>, emitted before the pass returns,
  when none is pending; otherwise \<open>download:retry\<close>, not emitted by the pass itself but
  handed to \<open>process.nextTick\<close>.
\<close>

theorem handleDirtyFiles_signal:
  "store (handleDirtyFiles transfer fs) =
     snd (allSettled transfer (promisesOf (findFiles dirty fs)) fs) \<and>
   emitted (handleDirtyFiles transfer fs) =
     (if findFiles dirty (store (handleDirtyFiles transfer fs)) = [] then [DownloadClean] else []) \<and>
   nextTick (handleDirtyFiles transfer fs) =
     (if findFiles dirty (store (handleDirtyFiles transfer fs)) = [] then [] else [DownloadRetry]) \<and>
   length (emitted (handleDirtyFiles transfer fs) @ nextTick (handleDirtyFiles transfer fs)) = 1"
  by (simp add: handleDirtyFiles_def Let_def split_beta)

theorem handleDirtyFiles_signal_witness:
  "emitted (handleDirtyFiles (\<lambda>f. True)
     [\<lparr>file_id = ''a'', mimeType = DOCUMENT_MIME, size = None, dirty = True\<rparr>,
      \<lparr>file_id = ''b'', mimeType = REDIRECT_MIME, size = None, dirty = False\<rparr>]) = [DownloadClean] \<and>
   nextTick (handleDirtyFiles (\<lambda>f. True)
     [\<lparr>file_id = ''a'', mimeType = DOCUMENT_MIME, size = None, dirty = True\<rparr>,
      \<lparr>file_id = ''b'', mimeType = REDIRECT_MIME, size = None, dirty = False\<rparr>]) = [] \<and>
   emitted (handleDirtyFiles (\<lambda>f. False)
     [\<lparr>file_id = ''a'', mimeType = DOCUMENT_MIME, size = None, dirty = True\<rparr>,
      \<lparr>file_id = ''b'', mimeType = REDIRECT_MIME, size = None, dirty = False\<rparr>]) = [] \<and>
   nextTick (handleDirtyFiles (\<lambda>f. False)
     [\<lparr>file_id = ''a'', mimeType = DOCUMENT_MIME, size = None, dirty = True\<rparr>,
      \<lparr>file_id = ''b'', mimeType = REDIRECT_MIME, size = None, dirty = False\<rparr>]) = [DownloadRetry]"
proof -
  let ?fs = "[\<lparr>file_id = ''a'', mimeType = DOCUMENT_MIME, size = None, dirty = True\<rparr>,
      \<lparr>file_id = ''b'', mimeType = REDIRECT_MIME, size = None, dirty = False\<rparr>]"
  have a: "findFiles dirty (snd (allSettled (\<lambda>f. True) (promisesOf (findFiles dirty ?fs)) ?fs)) = []"
    by (simp add: findFiles_def promisesOf_def dispatch_def runTask_def markClean_def)
  have b: "findFiles dirty (snd (allSettled (\<lambda>f. False) (promisesOf (findFiles dirty ?fs)) ?fs)) \<noteq> []"
    by (simp add: findFiles_def promisesOf_def dispatch_def runTask_def markDirty_def)
  from handleDirtyFiles_signal[of "\<lambda>f. True" ?fs] handleDirtyFiles_signal[of "\<lambda>f. False" ?fs] a b
  show ?thesis by (simp del: allSettled.simps)
qed

end
